theory Spec2Isabelle
  imports Complex_Main "HOL-Library.Multiset"
begin

section \<open>Sliding window median (stl_examples/sliding_window_median.cpp)\<close>

subsection \<open>The ordered multisets\<close>

text \<open>
  A \<^verbatim>\<open>multiset<long long>\<close> is an ordered container with duplicates. Its elements
  are plain integers, so two equal elements cannot be told apart and the container is
  determined by its ascending sequence of values: it is modelled as an ascending list.
  \<^item> \<^verbatim>\<open>s.insert(x)\<close> is \<open>insort x s\<close>;
  \<^item> \<^verbatim>\<open>s.find(x) != s.end()\<close> is \<open>x \<in> set s\<close>, and erasing the iterator found is
    \<open>remove1 x s\<close> (one occurrence);
  \<^item> \<^verbatim>\<open>*prev(s.end())\<close> is \<open>last s\<close> and erasing that iterator is \<open>butlast s\<close>;
  \<^item> \<^verbatim>\<open>*s.begin()\<close> is \<open>hd s\<close> and erasing that iterator is \<open>tl s\<close>;
  \<^item> \<^verbatim>\<open>s.size()\<close> is \<open>length s\<close>.
  The stored values are \<^verbatim>\<open>long long\<close>; the class only compares them and converts them
  to \<^verbatim>\<open>double\<close>, it never does integer arithmetic on them, so they are modelled as
  \<open>int\<close> (the values a program can store are those of magnitude below \<open>2^63\<close>).
\<close>

record SlidingMedian =
  lo :: "int list"
  hi :: "int list"

definition SlidingMedian_new :: SlidingMedian where
  "SlidingMedian_new = \<lparr>lo = [], hi = []\<rparr>"

subsection \<open>balance\<close>

text \<open>One iteration of the first loop: the greatest element of lo goes to hi.\<close>

definition move_lo_to_hi :: "SlidingMedian \<Rightarrow> SlidingMedian" where
  "move_lo_to_hi t = \<lparr>lo = butlast (lo t), hi = insort (last (lo t)) (hi t)\<rparr>"

text \<open>One iteration of the second loop: the least element of hi goes to lo.\<close>

definition move_hi_to_lo :: "SlidingMedian \<Rightarrow> SlidingMedian" where
  "move_hi_to_lo t = \<lparr>lo = insort (hd (hi t)) (lo t), hi = tl (hi t)\<rparr>"

text \<open>\<^verbatim>\<open>while (lo.size() > hi.size() + 1) { ... }\<close>\<close>

function balance_lo :: "SlidingMedian \<Rightarrow> SlidingMedian" where
  "balance_lo t =
     (if length (lo t) > length (hi t) + 1 then balance_lo (move_lo_to_hi t) else t)"
  by pat_completeness auto
termination
  by (relation "measure (\<lambda>t. length (lo t) - length (hi t))")
     (auto simp: move_lo_to_hi_def)

text \<open>\<^verbatim>\<open>while (lo.size() < hi.size()) { ... }\<close>\<close>

function balance_hi :: "SlidingMedian \<Rightarrow> SlidingMedian" where
  "balance_hi t =
     (if length (lo t) < length (hi t) then balance_hi (move_hi_to_lo t) else t)"
  by pat_completeness auto
termination
  by (relation "measure (\<lambda>t. length (hi t) - length (lo t))")
     (auto simp: move_hi_to_lo_def)

declare balance_lo.simps [simp del] balance_hi.simps [simp del]

definition balance :: "SlidingMedian \<Rightarrow> SlidingMedian" where
  "balance t = balance_hi (balance_lo t)"

text \<open>The number of iterations the two loops make, by the same recursion.\<close>

function balance_lo_moves :: "SlidingMedian \<Rightarrow> nat" where
  "balance_lo_moves t =
     (if length (lo t) > length (hi t) + 1 then Suc (balance_lo_moves (move_lo_to_hi t))
      else 0)"
  by pat_completeness auto
termination
  by (relation "measure (\<lambda>t. length (lo t) - length (hi t))")
     (auto simp: move_lo_to_hi_def)

function balance_hi_moves :: "SlidingMedian \<Rightarrow> nat" where
  "balance_hi_moves t =
     (if length (lo t) < length (hi t) then Suc (balance_hi_moves (move_hi_to_lo t))
      else 0)"
  by pat_completeness auto
termination
  by (relation "measure (\<lambda>t. length (hi t) - length (lo t))")
     (auto simp: move_hi_to_lo_def)

declare balance_lo_moves.simps [simp del] balance_hi_moves.simps [simp del]

definition balance_moves :: "SlidingMedian \<Rightarrow> nat" where
  "balance_moves t = balance_lo_moves t + balance_hi_moves (balance_lo t)"

subsection \<open>insert, erase\<close>

text \<open>The first two lines of \<^verbatim>\<open>insert\<close>: where the new value is put.\<close>

definition place :: "int \<Rightarrow> SlidingMedian \<Rightarrow> SlidingMedian" where
  "place x t =
     (if lo t = [] \<or> x \<le> last (lo t) then t\<lparr>lo := insort x (lo t)\<rparr>
      else t\<lparr>hi := insort x (hi t)\<rparr>)"

definition insert_sm :: "int \<Rightarrow> SlidingMedian \<Rightarrow> SlidingMedian" where
  "insert_sm x t = balance (place x t)"

text \<open>The search and removal of \<^verbatim>\<open>erase\<close>, before it rebalances.\<close>

definition unplace :: "int \<Rightarrow> SlidingMedian \<Rightarrow> SlidingMedian" where
  "unplace x t =
     (if x \<in> set (lo t) then t\<lparr>lo := remove1 x (lo t)\<rparr>
      else if x \<in> set (hi t) then t\<lparr>hi := remove1 x (hi t)\<rparr>
      else t)"

definition erase :: "int \<Rightarrow> SlidingMedian \<Rightarrow> SlidingMedian" where
  "erase x t = balance (unplace x t)"

subsection \<open>median\<close>

text \<open>
  \<^verbatim>\<open>median\<close> returns a \<^verbatim>\<open>double\<close>. Every double it can produce is an integer or half an
  integer, so a double is modelled by the rational number it denotes, and the rounding
  of IEEE 754 binary64 (53 significant bits, round to nearest, ties to even) is written
  out. \<open>drop_bits m\<close> is the number of low bits of a magnitude \<open>m\<close> that do not fit
  the significand.
\<close>

function drop_bits :: "int \<Rightarrow> nat" where
  "drop_bits m = (if m < 2 ^ 53 then 0 else Suc (drop_bits (m div 2)))"
  by pat_completeness auto
termination
  by (relation "measure nat") auto

declare drop_bits.simps [simp del]

definition round_binary64 :: "int \<Rightarrow> int" where
  "round_binary64 n =
     (let m = \<bar>n\<bar>; u = 2 ^ drop_bits m; q = m div u; r = m mod u;
          q' = (if 2 * r > u \<or> (2 * r = u \<and> odd q) then q + 1 else q)
      in sgn n * (q' * u))"

text \<open>\<^verbatim>\<open>double(a)\<close> for a \<^verbatim>\<open>long long a\<close>.\<close>

definition double_of :: "int \<Rightarrow> rat" where
  "double_of a = of_int (round_binary64 a)"

text \<open>\<^verbatim>\<open>(double(a) + double(b)) / 2.0\<close>: the sum is rounded, the halving is exact.\<close>

definition average :: "int \<Rightarrow> int \<Rightarrow> rat" where
  "average a b = of_int (round_binary64 (round_binary64 a + round_binary64 b)) / 2"

text \<open>
  With lo empty and hi not, \<^verbatim>\<open>median\<close> evaluates \<^verbatim>\<open>*prev(lo.end())\<close> on an empty
  container, which has no defined behaviour: that is the fault below.
\<close>

datatype fault = Deref_end_of_empty

definition median :: "SlidingMedian \<Rightarrow> fault + rat" where
  "median t =
     (if lo t = [] \<and> hi t = [] then Inr 0
      else if length (lo t) > length (hi t) then Inr (double_of (last (lo t)))
      else if lo t = [] then Inl Deref_end_of_empty
      else Inr (average (last (lo t)) (hd (hi t))))"

subsection \<open>The demonstration loop of main\<close>

text \<open>
  \<^verbatim>\<open>for (i = 0; i < n; ++i) { win.insert(nums[i]);
       if (i >= k - 1) { medians.push_back(win.median()); win.erase(nums[i - k + 1]); } }\<close>
  The state of the loop is the index, the tracker and the medians so far. The index
  \<open>i - k + 1\<close> is in range whenever \<open>1 \<le> k\<close>; for \<open>k \<le> 0\<close> the read is out of the
  vector's range and the model stops with a fault.
\<close>

datatype main_fault = Median_fault fault | Index_out_of_range

function main_loop ::
  "int list \<Rightarrow> int \<Rightarrow> nat \<Rightarrow> SlidingMedian \<Rightarrow> rat list \<Rightarrow> main_fault + rat list" where
  "main_loop nums k i win medians =
     (if i < length nums then
        (let win1 = insert_sm (nums ! i) win in
         if int i \<ge> k - 1 then
           (case median win1 of
              Inl f \<Rightarrow> Inl (Median_fault f)
            | Inr m \<Rightarrow>
                (let j = int i - k + 1 in
                 if 0 \<le> j \<and> j < int (length nums) then
                   main_loop nums k (Suc i) (erase (nums ! nat j) win1) (medians @ [m])
                 else Inl Index_out_of_range))
         else main_loop nums k (Suc i) win1 medians)
      else Inr medians)"
  by pat_completeness auto
termination
  by (relation "measure (\<lambda>(nums, k, i, win, medians). length nums - i)") auto

declare main_loop.simps [simp del]

definition sliding_medians :: "int list \<Rightarrow> int \<Rightarrow> main_fault + rat list" where
  "sliding_medians nums k = main_loop nums k 0 SlidingMedian_new []"

subsection \<open>Sequences of calls, and the invariant of the class\<close>

datatype sm_op = Insert int | Erase int

fun apply_op :: "SlidingMedian \<Rightarrow> sm_op \<Rightarrow> SlidingMedian" where
  "apply_op t (Insert x) = insert_sm x t"
| "apply_op t (Erase x) = erase x t"

text \<open>The tracker after a sequence of calls on a freshly constructed object.\<close>

definition run_ops :: "sm_op list \<Rightarrow> SlidingMedian" where
  "run_ops ops = foldl apply_op SlidingMedian_new ops"

text \<open>
  The comment of \<^verbatim>\<open>balance\<close>:
  \<^verbatim>\<open>lo.size() == hi.size() or lo.size() == hi.size()+1\<close>.
\<close>

definition sizes_ok :: "SlidingMedian \<Rightarrow> bool" where
  "sizes_ok t \<longleftrightarrow>
     length (lo t) = length (hi t) \<or> length (lo t) = length (hi t) + 1"

text \<open>lo is the lower half: none of its values exceeds a value of hi.\<close>

definition halves_ordered :: "SlidingMedian \<Rightarrow> bool" where
  "halves_ordered t \<longleftrightarrow> (\<forall>a \<in> set (lo t). \<forall>b \<in> set (hi t). a \<le> b)"

text \<open>
  Both containers are ascending (that is what a \<^verbatim>\<open>multiset\<close> is), and the two
  properties above hold.
\<close>

definition tracker_inv :: "SlidingMedian \<Rightarrow> bool" where
  "tracker_inv t \<longleftrightarrow> sorted (lo t) \<and> sorted (hi t) \<and> sizes_ok t \<and> halves_ordered t"

text \<open>The part of the invariant that \<^verbatim>\<open>balance\<close> relies on and keeps.\<close>

definition ordered_state :: "SlidingMedian \<Rightarrow> bool" where
  "ordered_state t \<longleftrightarrow> sorted (lo t) \<and> sorted (hi t) \<and> halves_ordered t"

section \<open>LRU cache (stl_examples/lru_cache.cpp)\<close>

subsection \<open>The list and its iterators\<close>

text \<open>
  \<^verbatim>\<open>list<pair<int,int>> dll\<close> is a doubly linked list of (key, value) pairs, and a
  \<^verbatim>\<open>ListIt\<close> is an iterator into it: a reference to one node, which stays valid while other
  nodes are inserted, moved or erased. Since the map \<^verbatim>\<open>mp\<close> stores such references, the
  nodes are modelled with their identity: a node is its address and its pair, the list is
  the sequence of its nodes from front to back, and an iterator is an address.
  Dereferencing or splicing an iterator that refers to no node of the list, and
  \<^verbatim>\<open>back()\<close> on an empty list, have no defined behaviour: they are the faults of the model.
  Keys, values and the capacity are \<^verbatim>\<open>int\<close>; the class stores and compares them and
  does no arithmetic on them.
\<close>

type_synonym ListIt = nat

type_synonym node = "ListIt \<times> (int \<times> int)"

record LRUCache =
  cap :: int
  dll :: "node list"
  mp :: "int \<rightharpoonup> ListIt"

datatype lru_fault = Invalid_iterator | Back_of_empty_list

text \<open>The sentinel that \<^verbatim>\<open>get\<close> returns for a key that is not in the map.\<close>

definition NOT_FOUND :: int where
  "NOT_FOUND = -1"

text \<open>\<^verbatim>\<open>LRUCache(int capacity): cap(capacity) {}\<close>\<close>

definition LRUCache_new :: "int \<Rightarrow> LRUCache" where
  "LRUCache_new capacity = \<lparr>cap = capacity, dll = [], mp = Map.empty\<rparr>"

text \<open>\<^verbatim>\<open>*it\<close>: the pair of the node an iterator refers to.\<close>

definition deref :: "ListIt \<Rightarrow> node list \<Rightarrow> (int \<times> int) option" where
  "deref it ns = map_of ns it"

text \<open>\<^verbatim>\<open>dll.splice(dll.begin(), dll, it)\<close>: the node moves to the front.\<close>

definition splice_front :: "ListIt \<Rightarrow> node list \<Rightarrow> node list option" where
  "splice_front it ns =
     (case deref it ns of
        None \<Rightarrow> None
      | Some kv \<Rightarrow> Some ((it, kv) # remove1 (it, kv) ns))"

text \<open>\<^verbatim>\<open>it->second = value\<close> for a list iterator: the value of that node is replaced.\<close>

definition set_value :: "ListIt \<Rightarrow> int \<Rightarrow> node list \<Rightarrow> node list" where
  "set_value it v ns = map (\<lambda>n. if fst n = it then (fst n, (fst (snd n), v)) else n) ns"

text \<open>
  \<^verbatim>\<open>emplace_front\<close> allocates a node; its address is that of no node of the list.
\<close>

fun fresh :: "node list \<Rightarrow> ListIt" where
  "fresh [] = 0"
| "fresh (n # ns) = max (Suc (fst n)) (fresh ns)"

subsection \<open>get, put\<close>

definition get :: "LRUCache \<Rightarrow> int \<Rightarrow> lru_fault + (int \<times> LRUCache)" where
  "get c key =
     (case mp c key of
        None \<Rightarrow> Inr (NOT_FOUND, c)
      | Some it \<Rightarrow>
          (case splice_front it (dll c) of
             None \<Rightarrow> Inl Invalid_iterator
           | Some ns \<Rightarrow>
               (case deref it ns of
                  None \<Rightarrow> Inl Invalid_iterator
                | Some kv \<Rightarrow> Inr (snd kv, c\<lparr>dll := ns\<rparr>))))"

text \<open>
  The last two statements of \<^verbatim>\<open>put\<close>:
  \<^verbatim>\<open>dll.emplace_front(key, value); mp[key] = dll.begin();\<close>
\<close>

definition insert_front :: "int \<Rightarrow> int \<Rightarrow> LRUCache \<Rightarrow> LRUCache" where
  "insert_front key v c =
     (let it = fresh (dll c)
      in c\<lparr>dll := (it, (key, v)) # dll c, mp := (mp c)(key \<mapsto> it)\<rparr>)"

text \<open>
  The eviction branch:
  \<^verbatim>\<open>auto last = dll.back(); mp.erase(last.first); dll.pop_back();\<close>
\<close>

definition evict :: "LRUCache \<Rightarrow> lru_fault + LRUCache" where
  "evict c =
     (if dll c = [] then Inl Back_of_empty_list
      else Inr (c\<lparr>mp := (mp c)(fst (snd (last (dll c))) := None), dll := butlast (dll c)\<rparr>))"

definition put :: "LRUCache \<Rightarrow> int \<Rightarrow> int \<Rightarrow> lru_fault + LRUCache" where
  "put c key v =
     (case mp c key of
        Some it \<Rightarrow>
          (case deref it (dll c) of
             None \<Rightarrow> Inl Invalid_iterator
           | Some _ \<Rightarrow>
               (case splice_front it (set_value it v (dll c)) of
                  None \<Rightarrow> Inl Invalid_iterator
                | Some ns \<Rightarrow> Inr (c\<lparr>dll := ns\<rparr>)))
      | None \<Rightarrow>
          (if int (length (dll c)) = cap c then
             (case evict c of
                Inl f \<Rightarrow> Inl f
              | Inr c' \<Rightarrow> Inr (insert_front key v c'))
           else Inr (insert_front key v c)))"

subsection \<open>Sequences of calls\<close>

datatype lru_op = Get int | Put int int

text \<open>
  A sequence of calls on a cache: the values the \<^verbatim>\<open>get\<close> calls return, in order, and the
  cache at the end; a fault ends the run.
\<close>

fun run_cache :: "LRUCache \<Rightarrow> lru_op list \<Rightarrow> lru_fault + (int list \<times> LRUCache)" where
  "run_cache c [] = Inr ([], c)"
| "run_cache c (Get k # ops) =
     (case get c k of
        Inl f \<Rightarrow> Inl f
      | Inr (v, c') \<Rightarrow>
          (case run_cache c' ops of
             Inl f \<Rightarrow> Inl f
           | Inr (vs, c'') \<Rightarrow> Inr (v # vs, c'')))"
| "run_cache c (Put k v # ops) =
     (case put c k v of
        Inl f \<Rightarrow> Inl f
      | Inr c' \<Rightarrow> run_cache c' ops)"

text \<open>The keys of the list, front (most recently used) to back.\<close>

definition keys_of :: "node list \<Rightarrow> int list" where
  "keys_of ns = map (\<lambda>n. fst (snd n)) ns"

text \<open>
  The list and the map agree: the nodes of the list are distinct, no key is in two nodes,
  and the map takes a key to an iterator exactly when that iterator's node holds the key.
\<close>

definition index_ok :: "LRUCache \<Rightarrow> bool" where
  "index_ok c \<longleftrightarrow>
     distinct (map fst (dll c)) \<and>
     distinct (keys_of (dll c)) \<and>
     (\<forall>k it. mp c k = Some it \<longleftrightarrow> (\<exists>v. (it, (k, v)) \<in> set (dll c)))"

text \<open>The invariant of the class: that, and the list is no longer than the capacity.\<close>

definition cache_inv :: "LRUCache \<Rightarrow> bool" where
  "cache_inv c \<longleftrightarrow> index_ok c \<and> int (length (dll c)) \<le> cap c"

section \<open>Properties of the sliding window median\<close>

subsection \<open>Ascending lists\<close>

lemma sorted_mset_unique:
  "sorted (xs::int list) \<Longrightarrow> sorted ys \<Longrightarrow> mset xs = mset ys \<Longrightarrow> xs = ys"
  by (metis properties_for_sort sorted_sort_id)

lemma le_last_sorted: "sorted (xs::int list) \<Longrightarrow> a \<in> set xs \<Longrightarrow> a \<le> last xs"
  by (induction xs) (auto)

lemma hd_le_sorted: "sorted (xs::int list) \<Longrightarrow> a \<in> set xs \<Longrightarrow> hd xs \<le> a"
  by (cases xs) auto

lemma insort_snoc:
  assumes "sorted (xs::int list)" "\<forall>a \<in> set xs. a \<le> m"
  shows "insort m xs = xs @ [m]"
proof (rule sorted_mset_unique)
  show "sorted (insort m xs)" using assms by (simp add: sorted_insort)
  show "sorted (xs @ [m])" using assms by (simp add: sorted_append)
  show "mset (insort m xs) = mset (xs @ [m])" by simp
qed

lemma insort_cons:
  "\<forall>b \<in> set xs. m \<le> b \<Longrightarrow> insort m xs = m # (xs::int list)"
  by (cases xs) auto

lemma insort_last_butlast:
  assumes "sorted (xs::int list)" "xs \<noteq> []"
  shows "insort (last xs) (butlast xs) = xs"
proof -
  have "insort (last xs) (butlast xs) = butlast xs @ [last xs]"
    using assms by (intro insort_snoc) (auto simp: sorted_butlast dest: in_set_butlastD le_last_sorted)
  then show ?thesis using assms by simp
qed

lemma insort_below_last:
  assumes "sorted (xs::int list)" "xs \<noteq> []" "x \<le> last xs"
  shows "insort x xs = insort x (butlast xs) @ [last xs]"
proof (rule sorted_mset_unique)
  show "sorted (insort x xs)" using assms by (simp add: sorted_insort)
  show "sorted (insort x (butlast xs) @ [last xs])"
    using assms by (auto simp: sorted_append sorted_insort sorted_butlast set_insort_key dest: in_set_butlastD le_last_sorted)
  have "mset xs = mset (butlast xs @ [last xs])" using assms by simp
  then show "mset (insort x xs) = mset (insort x (butlast xs) @ [last xs])" by simp
qed

subsection \<open>The invariant is kept\<close>

lemma move_lo_to_hi_inv:
  assumes "sorted (lo t)" "sorted (hi t)" "halves_ordered t" "lo t \<noteq> []"
  shows "sorted (lo (move_lo_to_hi t))" "sorted (hi (move_lo_to_hi t))"
    "halves_ordered (move_lo_to_hi t)"
  using assms
  by (auto simp: move_lo_to_hi_def halves_ordered_def sorted_butlast sorted_insort
      set_insort_key dest: in_set_butlastD le_last_sorted)

lemma move_hi_to_lo_inv:
  assumes "sorted (lo t)" "sorted (hi t)" "halves_ordered t" "hi t \<noteq> []"
  shows "sorted (lo (move_hi_to_lo t))" "sorted (hi (move_hi_to_lo t))"
    "halves_ordered (move_hi_to_lo t)"
  using assms
  by (auto simp: move_hi_to_lo_def halves_ordered_def sorted_tl sorted_insort
      set_insort_key hd_le_sorted dest: list.set_sel(2))

lemma balance_lo_ordered: "ordered_state t \<Longrightarrow> ordered_state (balance_lo t)"
proof (induction t rule: balance_lo.induct)
  case (1 t)
  show ?case
  proof (cases "length (lo t) > length (hi t) + 1")
    case True
    then have "lo t \<noteq> []" by auto
    with "1.prems" have "ordered_state (move_lo_to_hi t)"
      unfolding ordered_state_def using move_lo_to_hi_inv by blast
    with True "1.IH" show ?thesis by (simp add: balance_lo.simps [of t])
  next
    case False
    with "1.prems" show ?thesis by (simp add: balance_lo.simps [of t])
  qed
qed

lemma balance_hi_ordered: "ordered_state t \<Longrightarrow> ordered_state (balance_hi t)"
proof (induction t rule: balance_hi.induct)
  case (1 t)
  show ?case
  proof (cases "length (lo t) < length (hi t)")
    case True
    then have "hi t \<noteq> []" by auto
    with "1.prems" have "ordered_state (move_hi_to_lo t)"
      unfolding ordered_state_def using move_hi_to_lo_inv by blast
    with True "1.IH" show ?thesis by (simp add: balance_hi.simps [of t])
  next
    case False
    with "1.prems" show ?thesis by (simp add: balance_hi.simps [of t])
  qed
qed

lemma balance_lo_length: "length (lo (balance_lo t)) \<le> length (hi (balance_lo t)) + 1"
proof (induction t rule: balance_lo.induct)
  case (1 t)
  then show ?case by (cases "length (lo t) > length (hi t) + 1") (simp_all add: balance_lo.simps [of t])
qed

lemma balance_hi_sizes:
  "length (lo t) \<le> length (hi t) + 1 \<Longrightarrow> sizes_ok (balance_hi t)"
proof (induction t rule: balance_hi.induct)
  case (1 t)
  show ?case
  proof (cases "length (lo t) < length (hi t)")
    case True
    then have "length (lo (move_hi_to_lo t)) \<le> length (hi (move_hi_to_lo t)) + 1"
      by (simp add: move_hi_to_lo_def)
    with True "1.IH" show ?thesis by (simp add: balance_hi.simps [of t])
  next
    case False
    with "1.prems" show ?thesis by (auto simp: balance_hi.simps [of t] sizes_ok_def)
  qed
qed

lemma balance_sizes_ok: "sizes_ok (balance t)"
  unfolding balance_def by (rule balance_hi_sizes [OF balance_lo_length])

lemma balance_ordered: "ordered_state t \<Longrightarrow> ordered_state (balance t)"
  unfolding balance_def by (intro balance_hi_ordered balance_lo_ordered)

lemma balance_inv: "ordered_state t \<Longrightarrow> tracker_inv (balance t)"
  using balance_sizes_ok [of t] balance_ordered [of t]
  by (simp add: tracker_inv_def ordered_state_def)

lemma place_ordered:
  assumes "tracker_inv t"
  shows "ordered_state (place x t)"
proof (cases "lo t = [] \<or> x \<le> last (lo t)")
  case True
  have "x \<le> b" if "b \<in> set (hi t)" for b
  proof -
    from that assms have ne: "lo t \<noteq> []"
      by (auto simp: tracker_inv_def sizes_ok_def)
    with True have "x \<le> last (lo t)" by simp
    moreover from ne that assms have "last (lo t) \<le> b"
      by (auto simp: tracker_inv_def halves_ordered_def)
    ultimately show ?thesis by simp
  qed
  with True assms show ?thesis
    by (auto simp: tracker_inv_def ordered_state_def place_def halves_ordered_def
        sorted_insort set_insort_key)
next
  case False
  with assms show ?thesis
    by (auto simp: tracker_inv_def ordered_state_def place_def halves_ordered_def
        sorted_insort set_insort_key dest: le_last_sorted)
qed

lemma unplace_ordered: "tracker_inv t \<Longrightarrow> ordered_state (unplace x t)"
  by (auto simp: tracker_inv_def ordered_state_def unplace_def halves_ordered_def sorted_remove1 dest: notin_set_remove1)

lemma insert_sm_inv: "tracker_inv t \<Longrightarrow> tracker_inv (insert_sm x t)"
  unfolding insert_sm_def by (intro balance_inv place_ordered)

lemma erase_inv: "tracker_inv t \<Longrightarrow> tracker_inv (erase x t)"
  unfolding erase_def by (intro balance_inv unplace_ordered)

lemma new_inv: "tracker_inv SlidingMedian_new"
  by (simp add: tracker_inv_def SlidingMedian_new_def sizes_ok_def halves_ordered_def)

lemma apply_op_inv: "tracker_inv t \<Longrightarrow> tracker_inv (apply_op t p)"
  by (cases p) (simp_all add: insert_sm_inv erase_inv)

lemma foldl_apply_op_inv: "tracker_inv t \<Longrightarrow> tracker_inv (foldl apply_op t ops)"
  by (induction ops arbitrary: t) (simp_all add: apply_op_inv)

lemma run_ops_inv: "tracker_inv (run_ops ops)"
  unfolding run_ops_def by (rule foldl_apply_op_inv [OF new_inv])

subsection \<open>What balance does to a state\<close>

lemma balance_noop: "sizes_ok t \<Longrightarrow> balance t = t"
  by (auto simp: balance_def sizes_ok_def balance_lo.simps [of t] balance_hi.simps [of t])

lemma balance_one_lo:
  assumes "length (lo t) = length (hi t) + 2"
  shows "balance t = move_lo_to_hi t"
proof -
  have s: "sizes_ok (move_lo_to_hi t)"
    using assms by (simp add: sizes_ok_def move_lo_to_hi_def)
  have "balance_lo t = balance_lo (move_lo_to_hi t)"
    using assms by (simp add: balance_lo.simps [of t])
  then have "balance t = balance (move_lo_to_hi t)"
    by (simp add: balance_def)
  with s show ?thesis by (simp add: balance_noop)
qed

lemma balance_one_hi:
  assumes "length (lo t) + 1 = length (hi t)"
  shows "balance t = move_hi_to_lo t"
proof -
  have s: "sizes_ok (move_hi_to_lo t)"
    using assms by (auto simp: sizes_ok_def move_hi_to_lo_def)
  have "balance_lo t = t"
    using assms by (simp add: balance_lo.simps [of t])
  moreover have "balance_hi t = balance_hi (move_hi_to_lo t)"
    using assms by (simp add: balance_hi.simps [of t])
  moreover have "balance_hi (move_hi_to_lo t) = move_hi_to_lo t"
    using s by (auto simp: sizes_ok_def balance_hi.simps [of "move_hi_to_lo t"])
  ultimately show ?thesis by (simp add: balance_def)
qed

lemma balance_moves_noop: "sizes_ok t \<Longrightarrow> balance_moves t = 0"
  by (auto simp: balance_moves_def sizes_ok_def balance_lo.simps [of t]
      balance_lo_moves.simps [of t] balance_hi_moves.simps [of t])

lemma balance_moves_one_lo:
  assumes "length (lo t) = length (hi t) + 2"
  shows "balance_moves t = 1"
proof -
  let ?u = "move_lo_to_hi t"
  have l: "length (lo ?u) = length (hi ?u)"
    using assms by (simp add: move_lo_to_hi_def)
  have "balance_lo_moves t = Suc (balance_lo_moves ?u)"
    using assms by (simp add: balance_lo_moves.simps [of t])
  moreover have "balance_lo_moves ?u = 0"
    using l by (simp add: balance_lo_moves.simps [of ?u])
  moreover have "balance_lo t = ?u"
    using assms l by (simp add: balance_lo.simps [of t] balance_lo.simps [of ?u])
  moreover have "balance_hi_moves ?u = 0"
    using l by (simp add: balance_hi_moves.simps [of ?u])
  ultimately show ?thesis by (simp add: balance_moves_def)
qed

lemma balance_moves_one_hi:
  assumes "length (lo t) + 1 = length (hi t)"
  shows "balance_moves t = 1"
proof -
  let ?u = "move_hi_to_lo t"
  have l: "length (lo ?u) = length (hi ?u) + 1"
    using assms by (auto simp: move_hi_to_lo_def)
  have "balance_lo_moves t = 0"
    using assms by (simp add: balance_lo_moves.simps [of t])
  moreover have "balance_lo t = t"
    using assms by (simp add: balance_lo.simps [of t])
  moreover have "balance_hi_moves t = Suc (balance_hi_moves ?u)"
    using assms by (simp add: balance_hi_moves.simps [of t])
  moreover have "balance_hi_moves ?u = 0"
    using l by (simp add: balance_hi_moves.simps [of ?u])
  ultimately show ?thesis by (simp add: balance_moves_def)
qed

lemma place_lengths:
  "(length (lo (place x t)) = length (lo t) + 1 \<and> length (hi (place x t)) = length (hi t)) \<or>
   (length (lo (place x t)) = length (lo t) \<and> length (hi (place x t)) = length (hi t) + 1)"
  by (simp add: place_def)

lemma insert_moves_le_one:
  assumes "sizes_ok t"
  shows "balance_moves (place x t) \<le> 1"
proof -
  let ?p = "place x t"
  from assms place_lengths [of x t]
  consider "sizes_ok ?p" | "length (lo ?p) = length (hi ?p) + 2" | "length (lo ?p) + 1 = length (hi ?p)"
    by (auto simp: sizes_ok_def)
  then show ?thesis
    by cases (simp_all add: balance_moves_noop balance_moves_one_lo balance_moves_one_hi)
qed

lemma erase_absent:
  assumes "sizes_ok t" "x \<notin> set (lo t)" "x \<notin> set (hi t)"
  shows "erase x t = t"
  using assms by (simp add: erase_def unplace_def balance_noop)

subsection \<open>Insert, then erase the same value\<close>

lemma roundtrip_into_lo:
  assumes inv: "tracker_inv t" and pl: "lo t = [] \<or> x \<le> last (lo t)"
  shows "erase x (insert_sm x t) = t"
proof (cases "length (lo t) = length (hi t)")
  case True
  have p: "place x t = t\<lparr>lo := insort x (lo t)\<rparr>" using pl by (simp add: place_def)
  have "sizes_ok (place x t)" using True by (simp add: p sizes_ok_def)
  then have i: "insert_sm x t = t\<lparr>lo := insort x (lo t)\<rparr>"
    by (simp add: insert_sm_def balance_noop p)
  have "unplace x (insert_sm x t) = t" by (simp add: i unplace_def set_insort_key)
  moreover have "sizes_ok t" using inv by (simp add: tracker_inv_def)
  ultimately show ?thesis by (simp add: erase_def balance_noop)
next
  case False
  with inv have len: "length (lo t) = length (hi t) + 1"
    by (auto simp: tracker_inv_def sizes_ok_def)
  then have ne: "lo t \<noteq> []" by auto
  with pl have le: "x \<le> last (lo t)" by simp
  from inv have srt: "sorted (lo t)" and ord: "halves_ordered t"
    by (simp_all add: tracker_inv_def)
  have ins: "insort x (lo t) = insort x (butlast (lo t)) @ [last (lo t)]"
    using srt ne le by (rule insort_below_last)
  have "\<forall>b \<in> set (hi t). last (lo t) \<le> b"
    using ord ne by (auto simp: halves_ordered_def)
  then have cons: "insort (last (lo t)) (hi t) = last (lo t) # hi t"
    by (rule insort_cons)
  have p: "place x t = t\<lparr>lo := insort x (lo t)\<rparr>" using pl by (simp add: place_def)
  have "length (lo (place x t)) = length (hi (place x t)) + 2"
    using len by (simp add: p)
  then have "insert_sm x t = move_lo_to_hi (place x t)"
    by (simp add: insert_sm_def balance_one_lo)
  then have i: "insert_sm x t = \<lparr>lo = insort x (butlast (lo t)), hi = last (lo t) # hi t\<rparr>"
    by (simp add: p move_lo_to_hi_def ins cons)
  have u: "unplace x (insert_sm x t) = \<lparr>lo = butlast (lo t), hi = last (lo t) # hi t\<rparr>"
    by (simp add: i unplace_def set_insort_key)
  have "length (lo (unplace x (insert_sm x t))) + 1 = length (hi (unplace x (insert_sm x t)))"
    using len by (simp add: u)
  then have "erase x (insert_sm x t) = move_hi_to_lo (unplace x (insert_sm x t))"
    by (simp add: erase_def balance_one_hi)
  also have "\<dots> = \<lparr>lo = insort (last (lo t)) (butlast (lo t)), hi = hi t\<rparr>"
    by (simp add: u move_hi_to_lo_def)
  also have "\<dots> = t"
    using srt ne by (simp add: insort_last_butlast)
  finally show ?thesis .
qed

lemma roundtrip_into_hi:
  assumes inv: "tracker_inv t" and pl: "\<not> (lo t = [] \<or> x \<le> last (lo t))"
  shows "erase x (insert_sm x t) = t"
proof -
  from pl have ne: "lo t \<noteq> []" and gt: "last (lo t) < x" by auto
  from inv have srt: "sorted (lo t)" and srth: "sorted (hi t)" and ord: "halves_ordered t"
    and sz: "sizes_ok t"
    by (simp_all add: tracker_inv_def)
  have notin: "x \<notin> set (lo t)"
    using le_last_sorted [OF srt, of x] gt by auto
  have p: "place x t = t\<lparr>hi := insort x (hi t)\<rparr>" using pl by (simp add: place_def)
  show ?thesis
  proof (cases "length (lo t) = length (hi t)")
    case False
    with sz have len: "length (lo t) = length (hi t) + 1" by (auto simp: sizes_ok_def)
    then have "sizes_ok (place x t)" by (simp add: p sizes_ok_def)
    then have i: "insert_sm x t = t\<lparr>hi := insort x (hi t)\<rparr>"
      by (simp add: insert_sm_def balance_noop p)
    have "unplace x (insert_sm x t) = t" using notin by (simp add: i unplace_def set_insort_key)
    with sz show ?thesis by (simp add: erase_def balance_noop)
  next
    case True
    with ne obtain m hs where hi: "hi t = m # hs" by (cases "hi t") auto
    have "length (lo (place x t)) + 1 = length (hi (place x t))"
      using True by (simp add: p)
    then have ins: "insert_sm x t = move_hi_to_lo (place x t)"
      by (simp add: insert_sm_def balance_one_hi)
    show ?thesis
    proof (cases "x \<le> m")
      case le: True
      then have i: "insert_sm x t = t\<lparr>lo := insort x (lo t)\<rparr>"
        by (simp add: ins p move_hi_to_lo_def hi)
      have "unplace x (insert_sm x t) = t" by (simp add: i unplace_def set_insort_key)
      with sz show ?thesis by (simp add: erase_def balance_noop)
    next
      case gtm: False
      have "\<forall>a \<in> set (lo t). a \<le> m"
        using ord by (simp add: halves_ordered_def hi)
      then have snoc: "insort m (lo t) = lo t @ [m]"
        using srt by (intro insort_snoc) auto
      have i: "insert_sm x t = \<lparr>lo = lo t @ [m], hi = insort x hs\<rparr>"
        using gtm by (simp add: ins p move_hi_to_lo_def hi snoc)
      have u: "unplace x (insert_sm x t) = \<lparr>lo = lo t @ [m], hi = hs\<rparr>"
        using notin gtm by (auto simp: i unplace_def set_insort_key)
      have "length (lo (unplace x (insert_sm x t))) = length (hi (unplace x (insert_sm x t))) + 2"
        using True by (simp add: u hi)
      then have "erase x (insert_sm x t) = move_lo_to_hi (unplace x (insert_sm x t))"
        by (simp add: erase_def balance_one_lo)
      also have "\<dots> = \<lparr>lo = lo t, hi = insort m hs\<rparr>"
        by (simp add: u move_lo_to_hi_def)
      also have "insort m hs = m # hs"
        using srth by (intro insort_cons) (simp add: hi)
      finally show ?thesis by (simp add: hi [symmetric])
    qed
  qed
qed

lemma insert_erase_roundtrip: "tracker_inv t \<Longrightarrow> erase x (insert_sm x t) = t"
  using roundtrip_into_lo roundtrip_into_hi by blast

subsection \<open>Conversion to double\<close>

lemma drop_bits_small: "m < 2 ^ 53 \<Longrightarrow> drop_bits m = 0"
  by (simp add: drop_bits.simps [of m])

lemma drop_bits_2_53: "drop_bits 9007199254740992 = Suc 0"
  by code_simp

lemma round_binary64_exact:
  assumes "\<bar>n\<bar> \<le> 2 ^ 53"
  shows "round_binary64 n = n"
proof (cases "\<bar>n\<bar> < 2 ^ 53")
  case True
  then show ?thesis
    by (simp add: round_binary64_def drop_bits_small Let_def sgn_if)
next
  case False
  with assms have "\<bar>n\<bar> = 2 ^ 53" by simp
  then show ?thesis
    by (auto simp add: round_binary64_def drop_bits_2_53 Let_def sgn_if abs_if split: if_splits)
qed

lemma double_of_exact: "\<bar>a\<bar> \<le> 2 ^ 53 \<Longrightarrow> double_of a = of_int a"
  by (simp add: double_of_def round_binary64_exact)

lemma average_exact:
  assumes "\<bar>a\<bar> \<le> 2 ^ 52" "\<bar>b\<bar> \<le> 2 ^ 52"
  shows "average a b = (of_int a + of_int b) / 2"
proof -
  from assms have a: "\<bar>a\<bar> \<le> 2 ^ 53" and b: "\<bar>b\<bar> \<le> 2 ^ 53" and s: "\<bar>a + b\<bar> \<le> 2 ^ 53"
    by simp_all
  show ?thesis
    by (simp add: average_def round_binary64_exact [OF a] round_binary64_exact [OF b]
        round_binary64_exact [OF s])
qed

lemma last_sorted_Max: "sorted (xs::int list) \<Longrightarrow> xs \<noteq> [] \<Longrightarrow> last xs = Max (set xs)"
  by (metis List.finite_set Max_eqI last_in_set le_last_sorted)

lemma hd_sorted_Min: "sorted (xs::int list) \<Longrightarrow> xs \<noteq> [] \<Longrightarrow> hd xs = Min (set xs)"
  by (metis List.finite_set Min_eqI hd_in_set hd_le_sorted)

subsection \<open>The demonstration run\<close>

text \<open>
  Claim C1, as the code has it: over the input \<open>[1,3,-1,-3,5,3,6,7]\<close> with window size 3
  (insert the current element; from the third element on, record \<^verbatim>\<open>median()\<close> and erase the
  element that leaves the window) the loop of \<^verbatim>\<open>main\<close> records the six medians
  \<open>[1, -1, -1, 3, 5, 6]\<close>, one for each of the six windows.
\<close>

theorem demo_medians:
  "sliding_medians [1, 3, -1, -3, 5, 3, 6, 7] 3 = Inr [1, -1, -1, 3, 5, 6]"
  by code_simp

text \<open>
  Claim C1 as it is worded names the sequence \<open>[1, -1, -1, 3, 5, 3, 6]\<close> of seven medians:
  that is not what the loop records.
\<close>

theorem demo_medians_not_seven:
  "sliding_medians [1, 3, -1, -3, 5, 3, 6, 7] 3 \<noteq> Inr [1, -1, -1, 3, 5, 3, 6]"
  by code_simp

subsection \<open>The invariant after every call\<close>

text \<open>
  Claim C3: for every sequence of insert and erase calls on a new tracker, after every
  call of the sequence (that is, after each of its prefixes \<open>take n ops\<close>) the sizes
  satisfy \<open>size(lo) = size(hi)\<close> or \<open>size(lo) = size(hi) + 1\<close>, and every value in lo
  is at most every value in hi.
\<close>

theorem invariant_after_every_operation:
  "(length (lo (run_ops (take n ops))) = length (hi (run_ops (take n ops))) \<or>
    length (lo (run_ops (take n ops))) = length (hi (run_ops (take n ops))) + 1) \<and>
   (\<forall>a \<in> set (lo (run_ops (take n ops))). \<forall>b \<in> set (hi (run_ops (take n ops))). a \<le> b)"
  using run_ops_inv [of "take n ops"]
  by (simp add: tracker_inv_def sizes_ok_def halves_ordered_def)

theorem invariant_after_every_operation_witness:
  "lo (run_ops (take 3 [Insert 5, Insert 5, Insert 2, Erase 5])) = [2, 5] \<and>
   hi (run_ops (take 3 [Insert 5, Insert 5, Insert 2, Erase 5])) = [5] \<and>
   length [2, 5 :: int] = length [5 :: int] + 1 \<and> (2 :: int) \<le> 5 \<and> (5 :: int) \<le> 5"
proof -
  have l: "lo (run_ops (take 3 [Insert 5, Insert 5, Insert 2, Erase 5])) = [2, 5]"
    by code_simp
  have h: "hi (run_ops (take 3 [Insert 5, Insert 5, Insert 2, Erase 5])) = [5]"
    by code_simp
  show ?thesis
    using invariant_after_every_operation [of 3 "[Insert 5, Insert 5, Insert 2, Erase 5]"]
    unfolding l h by simp
qed

subsection \<open>median\<close>

text \<open>
  Claim C5, as the code has it: \<^verbatim>\<open>median()\<close> returns the sentinel 0 when both multisets are
  empty. When \<open>size(lo) > size(hi)\<close> it returns the greatest value of lo converted to
  \<^verbatim>\<open>double\<close>, which is that value itself whenever its magnitude is at most \<open>2^53\<close>.
  Otherwise, lo being non-empty (as it is in every state that insert and erase produce), it
  returns \<^verbatim>\<open>(double(a) + double(b)) / 2.0\<close> for the greatest value \<open>a\<close> of lo and the least
  value \<open>b\<close> of hi, computed in floating point: that is the exact, possibly fractional,
  average \<open>(a + b) / 2\<close> whenever both magnitudes are at most \<open>2^52\<close>.
\<close>

theorem median_by_cases:
  assumes "sorted (lo t)" "sorted (hi t)"
  shows
    "(lo t = [] \<and> hi t = [] \<longrightarrow> median t = Inr 0) \<and>
     (length (lo t) > length (hi t) \<longrightarrow>
        median t = Inr (double_of (Max (set (lo t)))) \<and>
        (\<bar>Max (set (lo t))\<bar> \<le> 2 ^ 53 \<longrightarrow> median t = Inr (of_int (Max (set (lo t)))))) \<and>
     (lo t \<noteq> [] \<and> length (lo t) \<le> length (hi t) \<longrightarrow>
        median t = Inr (average (Max (set (lo t))) (Min (set (hi t)))) \<and>
        (\<bar>Max (set (lo t))\<bar> \<le> 2 ^ 52 \<and> \<bar>Min (set (hi t))\<bar> \<le> 2 ^ 52 \<longrightarrow>
           median t = Inr ((of_int (Max (set (lo t))) + of_int (Min (set (hi t)))) / 2))) \<and>
     (sizes_ok t \<longrightarrow> (\<exists>m. median t = Inr m))"
proof (intro conjI impI)
  assume "lo t = [] \<and> hi t = []"
  then show "median t = Inr 0" by (simp add: median_def)
next
  assume gt: "length (hi t) < length (lo t)"
  then have ne: "lo t \<noteq> []" by auto
  with gt assms show m: "median t = Inr (double_of (Max (set (lo t))))"
    by (simp add: median_def last_sorted_Max)
  assume "\<bar>Max (set (lo t))\<bar> \<le> 2 ^ 53"
  with m show "median t = Inr (of_int (Max (set (lo t))))"
    by (simp add: double_of_exact)
next
  assume c: "lo t \<noteq> [] \<and> length (lo t) \<le> length (hi t)"
  then have "hi t \<noteq> []" by auto
  with c assms show m: "median t = Inr (average (Max (set (lo t))) (Min (set (hi t))))"
    by (simp add: median_def last_sorted_Max hd_sorted_Min)
  assume "\<bar>Max (set (lo t))\<bar> \<le> 2 ^ 52 \<and> \<bar>Min (set (hi t))\<bar> \<le> 2 ^ 52"
  with m show "median t = Inr ((of_int (Max (set (lo t))) + of_int (Min (set (hi t)))) / 2)"
    by (simp add: average_exact)
next
  assume "sizes_ok t"
  then show "\<exists>m. median t = Inr m"
    by (auto simp: sizes_ok_def median_def)
qed

theorem median_by_cases_witness:
  "sorted [1, 2 :: int] \<and> sorted [5, 7 :: int] \<and>
   sizes_ok \<lparr>lo = [1, 2], hi = [4]\<rparr> \<and> sizes_ok \<lparr>lo = [1, 2], hi = [5, 7]\<rparr> \<and>
   median \<lparr>lo = [], hi = []\<rparr> = Inr 0 \<and>
   median \<lparr>lo = [1, 2], hi = [4]\<rparr> = Inr 2 \<and>
   median \<lparr>lo = [1, 2], hi = [5, 7]\<rparr> = Inr (7 / 2) \<and>
   median \<lparr>lo = [9007199254740993], hi = []\<rparr> = Inr (double_of 9007199254740993)"
  using median_by_cases [of "\<lparr>lo = [], hi = []\<rparr>"]
    median_by_cases [of "\<lparr>lo = [1, 2], hi = [4]\<rparr>"]
    median_by_cases [of "\<lparr>lo = [1, 2], hi = [5, 7]\<rparr>"]
    median_by_cases [of "\<lparr>lo = [9007199254740993], hi = []\<rparr>"]
  by (simp add: double_of_exact average_exact sizes_ok_def)

text \<open>
  Claim C5 as it is worded, "returns max-of-lo when size(lo) > size(hi)", fails beyond
  \<open>2^53\<close>, where the conversion rounds: after \<^verbatim>\<open>insert(9007199254740993)\<close> on a new
  tracker (\<open>2^53 + 1\<close>, a \<^verbatim>\<open>long long\<close>), lo holds that value alone and \<^verbatim>\<open>median()\<close> returns
  \<open>2^53\<close>.
\<close>

theorem median_not_max_of_lo:
  "lo (insert_sm 9007199254740993 SlidingMedian_new) = [9007199254740993] \<and>
   hi (insert_sm 9007199254740993 SlidingMedian_new) = [] \<and>
   median (insert_sm 9007199254740993 SlidingMedian_new) = Inr 9007199254740992 \<and>
   median (insert_sm 9007199254740993 SlidingMedian_new)
     \<noteq> Inr (of_int (Max (set (lo (insert_sm 9007199254740993 SlidingMedian_new)))))"
proof -
  have l: "lo (insert_sm 9007199254740993 SlidingMedian_new) = [9007199254740993]"
    by code_simp
  have h: "hi (insert_sm 9007199254740993 SlidingMedian_new) = []"
    by code_simp
  have m: "median (insert_sm 9007199254740993 SlidingMedian_new) = Inr 9007199254740992"
    by code_simp
  show ?thesis unfolding l h m by simp
qed

subsection \<open>Round trip\<close>

text \<open>
  Claim C6: in every state the tracker can reach by insert and erase calls, and for every
  value \<open>x\<close>, \<^verbatim>\<open>insert(x)\<close> followed at once by \<^verbatim>\<open>erase(x)\<close> gives back the state before:
  the same lo and hi, hence the same total size and the same \<^verbatim>\<open>median()\<close>.
\<close>

theorem insert_then_erase_restores:
  "erase x (insert_sm x (run_ops ops)) = run_ops ops \<and>
   length (lo (erase x (insert_sm x (run_ops ops)))) + length (hi (erase x (insert_sm x (run_ops ops))))
     = length (lo (run_ops ops)) + length (hi (run_ops ops)) \<and>
   median (erase x (insert_sm x (run_ops ops))) = median (run_ops ops)"
  by (simp add: insert_erase_roundtrip [OF run_ops_inv])

theorem insert_then_erase_restores_witness:
  "run_ops [Insert 1, Insert 3, Insert 3] = \<lparr>lo = [1, 3], hi = [3]\<rparr> \<and>
   insert_sm 3 (run_ops [Insert 1, Insert 3, Insert 3]) = \<lparr>lo = [1, 3], hi = [3, 3]\<rparr> \<and>
   erase 3 (insert_sm 3 (run_ops [Insert 1, Insert 3, Insert 3])) = \<lparr>lo = [1, 3], hi = [3]\<rparr>"
proof -
  have r: "run_ops [Insert 1, Insert 3, Insert 3] = \<lparr>lo = [1, 3], hi = [3]\<rparr>"
    by code_simp
  have i: "insert_sm 3 \<lparr>lo = [1, 3], hi = [3]\<rparr> = \<lparr>lo = [1, 3], hi = [3, 3]\<rparr>"
    by code_simp
  show ?thesis
    using insert_then_erase_restores [of 3 "[Insert 1, Insert 3, Insert 3]"]
    by (simp add: r i)
qed

subsection \<open>insert\<close>

text \<open>
  Claim C7: \<^verbatim>\<open>insert(x)\<close> puts \<open>x\<close> into lo exactly when lo is empty or \<open>x\<close> is at most the
  greatest value of lo, and into hi otherwise; if the size invariant held before the call,
  the two loops of \<^verbatim>\<open>balance\<close> that follow make at most one iteration together, so the result
  is the state after placing, or that state with one element moved. (The loops terminate on
  every state: that is the termination proof of \<open>balance_lo\<close> and \<open>balance_hi\<close>.)
\<close>

theorem insert_places_then_moves_at_most_once:
  assumes "sorted (lo t)" "sizes_ok t"
  shows
    "(if lo t = [] \<or> x \<le> Max (set (lo t))
      then lo (place x t) = insort x (lo t) \<and> hi (place x t) = hi t
      else lo (place x t) = lo t \<and> hi (place x t) = insort x (hi t)) \<and>
     insert_sm x t = balance (place x t) \<and>
     balance_moves (place x t) \<le> 1 \<and>
     (insert_sm x t = place x t \<or> insert_sm x t = move_lo_to_hi (place x t) \<or>
      insert_sm x t = move_hi_to_lo (place x t))"
proof -
  let ?p = "place x t"
  have "lo t = [] \<or> x \<le> Max (set (lo t)) \<longleftrightarrow> lo t = [] \<or> x \<le> last (lo t)"
    using assms(1) by (cases "lo t = []") (simp_all add: last_sorted_Max)
  then have 1: "if lo t = [] \<or> x \<le> Max (set (lo t))
      then lo ?p = insort x (lo t) \<and> hi ?p = hi t
      else lo ?p = lo t \<and> hi ?p = insort x (hi t)"
    by (simp add: place_def)
  from assms(2) place_lengths [of x t]
  consider "sizes_ok ?p" | "length (lo ?p) = length (hi ?p) + 2" | "length (lo ?p) + 1 = length (hi ?p)"
    by (auto simp: sizes_ok_def)
  then have 2: "insert_sm x t = ?p \<or> insert_sm x t = move_lo_to_hi ?p \<or>
      insert_sm x t = move_hi_to_lo ?p"
    by cases (simp_all add: insert_sm_def balance_noop balance_one_lo balance_one_hi)
  from 1 2 insert_moves_le_one [OF assms(2), of x] show ?thesis
    by (simp add: insert_sm_def)
qed

theorem insert_places_then_moves_at_most_once_witness:
  "sorted [1, 3, 4 :: int] \<and> sizes_ok \<lparr>lo = [1, 3, 4], hi = [5, 7]\<rparr> \<and>
   place 2 \<lparr>lo = [1, 3, 4], hi = [5, 7]\<rparr> = \<lparr>lo = [1, 2, 3, 4], hi = [5, 7]\<rparr> \<and>
   balance_moves \<lparr>lo = [1, 2, 3, 4], hi = [5, 7]\<rparr> = 1 \<and>
   insert_sm 2 \<lparr>lo = [1, 3, 4], hi = [5, 7]\<rparr> = \<lparr>lo = [1, 2, 3], hi = [4, 5, 7]\<rparr>"
proof -
  have s: "sorted [1, 3, 4 :: int]" by simp
  have z: "sizes_ok \<lparr>lo = [1, 3, 4], hi = [5, 7]\<rparr>" by (simp add: sizes_ok_def)
  have p: "place 2 \<lparr>lo = [1, 3, 4], hi = [5, 7]\<rparr> = \<lparr>lo = [1, 2, 3, 4], hi = [5, 7]\<rparr>"
    by code_simp
  have m: "balance_moves \<lparr>lo = [1, 2, 3, 4], hi = [5, 7]\<rparr> = 1" by code_simp
  have i: "insert_sm 2 \<lparr>lo = [1, 3, 4], hi = [5, 7]\<rparr> = \<lparr>lo = [1, 2, 3], hi = [4, 5, 7]\<rparr>"
    by code_simp
  show ?thesis
    using insert_places_then_moves_at_most_once [of "\<lparr>lo = [1, 3, 4], hi = [5, 7]\<rparr>" 2] s z p m i
    by simp
qed

subsection \<open>erase of an absent value\<close>

text \<open>
  Claim C9: in every state the tracker can reach, \<^verbatim>\<open>erase(x)\<close> for a value \<open>x\<close> that is in
  neither multiset changes nothing: lo, hi, and with them the size and the median, are
  as before. (\<open>erase\<close> has no failing branch.)
\<close>

theorem erase_absent_is_noop:
  assumes "x \<notin> set (lo (run_ops ops))" "x \<notin> set (hi (run_ops ops))"
  shows "erase x (run_ops ops) = run_ops ops \<and>
    lo (erase x (run_ops ops)) = lo (run_ops ops) \<and>
    hi (erase x (run_ops ops)) = hi (run_ops ops) \<and>
    median (erase x (run_ops ops)) = median (run_ops ops)"
proof -
  have "sizes_ok (run_ops ops)" using run_ops_inv [of ops] by (simp add: tracker_inv_def)
  then have "erase x (run_ops ops) = run_ops ops" using assms by (rule erase_absent)
  then show ?thesis by simp
qed

theorem erase_absent_is_noop_witness:
  "run_ops [Insert 1, Insert 4] = \<lparr>lo = [1], hi = [4]\<rparr> \<and>
   7 \<notin> set (lo (run_ops [Insert 1, Insert 4])) \<and>
   7 \<notin> set (hi (run_ops [Insert 1, Insert 4])) \<and>
   erase 7 (run_ops [Insert 1, Insert 4]) = \<lparr>lo = [1], hi = [4]\<rparr>"
proof -
  have r: "run_ops [Insert 1, Insert 4] = \<lparr>lo = [1], hi = [4]\<rparr>" by code_simp
  show ?thesis
    using erase_absent_is_noop [of 7 "[Insert 1, Insert 4]"]
    by (simp add: r)
qed

section \<open>Properties of the LRU cache\<close>

subsection \<open>Iterators and the list\<close>

lemma fresh_greater: "n \<in> set ns \<Longrightarrow> fst n < fresh ns"
  by (induction ns) (auto simp: less_max_iff_disj)

lemma fresh_not_in: "fresh ns \<notin> fst ` set ns"
  using fresh_greater by fastforce

lemma deref_iff:
  "distinct (map fst ns) \<Longrightarrow> deref it ns = Some kv \<longleftrightarrow> (it, kv) \<in> set ns"
  by (simp add: deref_def)

lemma distinct_map_mset_eq:
  assumes "mset xs = mset ys"
  shows "distinct (map f xs) \<longleftrightarrow> distinct (map f ys)"
proof -
  from assms have "mset (map f xs) = mset (map f ys)" by simp
  then show ?thesis by (rule mset_eq_imp_distinct_iff)
qed

lemma index_ok_mset_eq:
  assumes "index_ok c" "mset ns = mset (dll c)"
  shows "index_ok (c\<lparr>dll := ns\<rparr>)"
proof -
  from assms(2) have "set ns = set (dll c)" by (rule mset_eq_setD)
  with assms show ?thesis
    by (simp add: index_ok_def keys_of_def
        distinct_map_mset_eq [OF assms(2), of fst]
        distinct_map_mset_eq [OF assms(2), of "\<lambda>n. fst (snd n)"])
qed

lemma splice_front_mset:
  "splice_front it ns = Some ns' \<Longrightarrow> distinct (map fst ns) \<Longrightarrow> mset ns' = mset ns"
  by (auto simp: splice_front_def deref_iff split: option.splits)

lemma splice_front_defined:
  "deref it ns = Some kv \<Longrightarrow> splice_front it ns = Some ((it, kv) # remove1 (it, kv) ns)"
  by (simp add: splice_front_def)

lemma map_fst_set_value: "map fst (set_value it v ns) = map fst ns"
  by (simp add: set_value_def)

lemma keys_of_set_value: "keys_of (set_value it v ns) = keys_of ns"
  by (simp add: set_value_def keys_of_def)

lemma set_value_holds_key:
  "(\<exists>w. (a, (k, w)) \<in> set (set_value it v ns)) \<longleftrightarrow> (\<exists>w. (a, (k, w)) \<in> set ns)"
  by (induction ns) (auto simp: set_value_def)

lemma index_ok_set_value: "index_ok c \<Longrightarrow> index_ok (c\<lparr>dll := set_value it v (dll c)\<rparr>)"
  by (simp add: index_ok_def map_fst_set_value keys_of_set_value set_value_holds_key)

lemma length_set_value: "length (set_value it v ns) = length ns"
  by (simp add: set_value_def)

subsection \<open>get and put keep the invariant\<close>

lemma index_ok_lookup:
  assumes "index_ok c" "mp c key = Some it"
  shows "\<exists>v. deref it (dll c) = Some (key, v)"
  using assms by (auto simp: index_ok_def deref_iff)

lemma get_miss: "mp c key = None \<Longrightarrow> get c key = Inr (NOT_FOUND, c)"
  by (simp add: get_def)

lemma get_hit:
  assumes ok: "index_ok c" and hit: "mp c key = Some it"
  shows "\<exists>v ns. get c key = Inr (v, c\<lparr>dll := ns\<rparr>) \<and> (it, (key, v)) \<in> set (dll c) \<and>
           ns = (it, (key, v)) # remove1 (it, (key, v)) (dll c)"
proof -
  from index_ok_lookup [OF ok hit] obtain v where d: "deref it (dll c) = Some (key, v)" by blast
  let ?ns = "(it, (key, v)) # remove1 (it, (key, v)) (dll c)"
  have s: "splice_front it (dll c) = Some ?ns" using d by (rule splice_front_defined)
  have "deref it ?ns = Some (key, v)" by (simp add: deref_def)
  with s hit have "get c key = Inr (v, c\<lparr>dll := ?ns\<rparr>)" by (simp add: get_def)
  moreover from ok d have "(it, (key, v)) \<in> set (dll c)" by (simp add: index_ok_def deref_iff)
  ultimately show ?thesis by blast
qed

lemma get_inv:
  assumes "cache_inv c"
  shows "\<exists>v c'. get c key = Inr (v, c') \<and> cache_inv c' \<and> cap c' = cap c"
proof (cases "mp c key")
  case None
  with assms show ?thesis by (simp add: get_miss)
next
  case (Some it)
  from assms have ok: "index_ok c" by (simp add: cache_inv_def)
  from get_hit [OF ok Some] obtain v ns where
    g: "get c key = Inr (v, c\<lparr>dll := ns\<rparr>)" and
    m: "(it, (key, v)) \<in> set (dll c)" and
    ns: "ns = (it, (key, v)) # remove1 (it, (key, v)) (dll c)" by blast
  from m ns have ms: "mset ns = mset (dll c)" by simp
  then have "length ns = length (dll c)" by (rule mset_eq_length)
  with assms index_ok_mset_eq [OF ok ms] have "cache_inv (c\<lparr>dll := ns\<rparr>)"
    by (simp add: cache_inv_def)
  with g show ?thesis by simp
qed

lemma put_hit_inv:
  assumes inv: "cache_inv c" and hit: "mp c key = Some it"
  shows "\<exists>c'. put c key v = Inr c' \<and> cache_inv c' \<and> cap c' = cap c"
proof -
  from inv have ok: "index_ok c" by (simp add: cache_inv_def)
  from index_ok_lookup [OF ok hit] obtain w where d: "deref it (dll c) = Some (key, w)" by blast
  let ?c1 = "c\<lparr>dll := set_value it v (dll c)\<rparr>"
  have ok1: "index_ok ?c1" using ok by (rule index_ok_set_value)
  have "mp ?c1 key = Some it" using hit by simp
  from index_ok_lookup [OF ok1 this] obtain w' where
    d1: "deref it (set_value it v (dll c)) = Some (key, w')" by auto
  let ?ns = "(it, (key, w')) # remove1 (it, (key, w')) (set_value it v (dll c))"
  have s: "splice_front it (set_value it v (dll c)) = Some ?ns"
    using d1 by (rule splice_front_defined)
  have p: "put c key v = Inr (c\<lparr>dll := ?ns\<rparr>)"
    using hit d s by (simp add: put_def)
  from ok1 d1 have "(it, (key, w')) \<in> set (dll ?c1)" by (simp add: index_ok_def deref_iff)
  then have ms: "mset ?ns = mset (dll ?c1)" by simp
  then have len: "length ?ns = length (dll ?c1)" by (rule mset_eq_length)
  have "index_ok (?c1\<lparr>dll := ?ns\<rparr>)" using ok1 ms by (rule index_ok_mset_eq)
  then have "cache_inv (c\<lparr>dll := ?ns\<rparr>)"
    using inv len by (simp add: cache_inv_def length_set_value)
  with p show ?thesis by simp
qed

lemma insert_front_index_ok:
  assumes ok: "index_ok c" and miss: "mp c key = None"
  shows "index_ok (insert_front key v c)"
proof -
  let ?it = "fresh (dll c)"
  have f: "?it \<notin> fst ` set (dll c)" by (rule fresh_not_in)
  have k: "key \<notin> set (keys_of (dll c))"
  proof
    assume "key \<in> set (keys_of (dll c))"
    then obtain a w where "(a, (key, w)) \<in> set (dll c)" by (auto simp: keys_of_def)
    with ok have "mp c key = Some a" by (auto simp: index_ok_def)
    with miss show False by simp
  qed
  have k': "(a, (key, w)) \<notin> set (dll c)" for a w
    using k by (force simp: keys_of_def)
  from ok f k show ?thesis
    by (auto simp: insert_front_def Let_def index_ok_def keys_of_def k')
qed

lemma evict_index_ok:
  assumes ok: "index_ok c" and ne: "dll c \<noteq> []"
  shows "\<exists>c'. evict c = Inr c' \<and> index_ok c' \<and> cap c' = cap c \<and>
    length (dll c') + 1 = length (dll c) \<and> (\<forall>k. mp c k = None \<longrightarrow> mp c' k = None)"
proof -
  obtain a kl vl where l: "last (dll c) = (a, (kl, vl))" by (metis prod_cases3)
  let ?c' = "c\<lparr>mp := (mp c)(kl := None), dll := butlast (dll c)\<rparr>"
  have e: "evict c = Inr ?c'" using ne by (simp add: evict_def l)
  from ne have split: "dll c = butlast (dll c) @ [(a, (kl, vl))]"
    using l by (metis append_butlast_last_id)
  have d1: "distinct (map fst (butlast (dll c)))"
    using ok by (simp add: index_ok_def map_butlast distinct_butlast)
  have d2: "distinct (keys_of (butlast (dll c)))"
    using ok by (simp add: index_ok_def keys_of_def map_butlast distinct_butlast)
  have dk: "distinct (keys_of (butlast (dll c) @ [(a, (kl, vl))]))"
    using ok split by (simp add: index_ok_def)
  then have nokl: "(b, (kl, w)) \<notin> set (butlast (dll c))" for b w
    by (force simp: keys_of_def)
  have i3: "(mp ?c' k = Some it) = (\<exists>w. (it, (k, w)) \<in> set (dll ?c'))" for k it
  proof (cases "k = kl")
    case True
    then show ?thesis using nokl by simp
  next
    case False
    have "(\<exists>w. (it, (k, w)) \<in> set (dll c)) = (\<exists>w. (it, (k, w)) \<in> set (butlast (dll c)))"
      using False by (subst split) auto
    with ok False show ?thesis by (simp add: index_ok_def)
  qed
  have "index_ok ?c'" using d1 d2 i3 by (simp add: index_ok_def)
  moreover have "length (dll ?c') + 1 = length (dll c)" using ne by simp
  ultimately show ?thesis using e by simp
qed

lemma put_miss_inv:
  assumes inv: "cache_inv c" and miss: "mp c key = None" and pos: "1 \<le> cap c"
  shows "\<exists>c'. put c key v = Inr c' \<and> cache_inv c' \<and> cap c' = cap c"
proof (cases "int (length (dll c)) = cap c")
  case False
  with miss have p: "put c key v = Inr (insert_front key v c)" by (simp add: put_def)
  from inv have ok: "index_ok c" by (simp add: cache_inv_def)
  have "index_ok (insert_front key v c)" using ok miss by (rule insert_front_index_ok)
  moreover from inv False have "int (length (dll (insert_front key v c))) \<le> cap c"
    by (simp add: cache_inv_def insert_front_def Let_def)
  ultimately have "cache_inv (insert_front key v c)"
    by (simp add: cache_inv_def insert_front_def Let_def)
  with p show ?thesis by (simp add: insert_front_def Let_def)
next
  case True
  with pos have ne: "dll c \<noteq> []" by auto
  from inv have ok: "index_ok c" by (simp add: cache_inv_def)
  from evict_index_ok [OF ok ne] obtain c' where
    e: "evict c = Inr c'" and ok': "index_ok c'" and cap': "cap c' = cap c" and
    len: "length (dll c') + 1 = length (dll c)" and
    keep: "\<forall>k. mp c k = None \<longrightarrow> mp c' k = None" by blast
  from miss keep have miss': "mp c' key = None" by simp
  have p: "put c key v = Inr (insert_front key v c')"
    using miss True e by (simp add: put_def)
  have "index_ok (insert_front key v c')" using ok' miss' by (rule insert_front_index_ok)
  moreover have "int (length (dll (insert_front key v c'))) \<le> cap c"
    using True len by (simp add: insert_front_def Let_def)
  ultimately have "cache_inv (insert_front key v c')"
    using cap' by (simp add: cache_inv_def insert_front_def Let_def)
  with p cap' show ?thesis by (simp add: insert_front_def Let_def)
qed

lemma put_inv:
  assumes "cache_inv c" "1 \<le> cap c"
  shows "\<exists>c'. put c key v = Inr c' \<and> cache_inv c' \<and> cap c' = cap c"
  using assms put_hit_inv put_miss_inv by (cases "mp c key") blast+

lemma run_cache_inv:
  assumes "cache_inv c" "1 \<le> cap c"
  shows "\<exists>vs c'. run_cache c ops = Inr (vs, c') \<and> cache_inv c' \<and> cap c' = cap c"
  using assms
proof (induction ops arbitrary: c)
  case Nil
  then show ?case by simp
next
  case (Cons p ops)
  show ?case
  proof (cases p)
    case (Get k)
    from get_inv [OF Cons.prems(1), of k] obtain v c1 where
      g: "get c k = Inr (v, c1)" and i: "cache_inv c1" and cp: "cap c1 = cap c" by blast
    from Cons.IH [OF i] Cons.prems(2) cp obtain vs c2 where
      "run_cache c1 ops = Inr (vs, c2)" "cache_inv c2" "cap c2 = cap c1" by auto
    with g cp Get show ?thesis by simp
  next
    case (Put k v)
    from put_inv [OF Cons.prems, of k v] obtain c1 where
      g: "put c k v = Inr c1" and i: "cache_inv c1" and cp: "cap c1 = cap c" by blast
    from Cons.IH [OF i] Cons.prems(2) cp obtain vs c2 where
      "run_cache c1 ops = Inr (vs, c2)" "cache_inv c2" "cap c2 = cap c1" by auto
    with g cp Put show ?thesis by simp
  qed
qed

lemma new_cache_inv: "0 \<le> capacity \<Longrightarrow> cache_inv (LRUCache_new capacity)"
  by (simp add: cache_inv_def index_ok_def LRUCache_new_def keys_of_def)

subsection \<open>What the invariant says about the map and the list\<close>

lemma dom_mp_keys: "index_ok c \<Longrightarrow> dom (mp c) = set (keys_of (dll c))"
  by (force simp: index_ok_def keys_of_def dom_def)

lemma card_index: "index_ok c \<Longrightarrow> card (dom (mp c)) = length (dll c)"
  using distinct_card [of "keys_of (dll c)"]
  by (simp add: dom_mp_keys) (simp add: index_ok_def keys_of_def)

lemma entry_indexed:
  assumes "index_ok c" "i < length (dll c)"
  shows "mp c (fst (snd (dll c ! i))) = Some (fst (dll c ! i))"
proof -
  obtain a k v where n: "dll c ! i = (a, (k, v))" by (metis prod_cases3)
  with assms(2) have "(a, (k, v)) \<in> set (dll c)" by (metis nth_mem)
  with assms(1) have "mp c k = Some a" by (auto simp: index_ok_def)
  with n show ?thesis by simp
qed

lemma key_in_one_entry:
  assumes ok: "index_ok c" and k: "k \<in> dom (mp c)"
  shows "\<exists>!i. i < length (dll c) \<and> fst (snd (dll c ! i)) = k"
proof -
  from k have "k \<in> set (keys_of (dll c))" using ok by (simp add: dom_mp_keys)
  then obtain i where i: "i < length (dll c)" "keys_of (dll c) ! i = k"
    by (auto simp: in_set_conv_nth keys_of_def)
  have d: "distinct (keys_of (dll c))" using ok by (simp add: index_ok_def)
  show ?thesis
  proof (rule ex1I [of _ i])
    show "i < length (dll c) \<and> fst (snd (dll c ! i)) = k"
      using i by (simp add: keys_of_def)
  next
    fix j assume j: "j < length (dll c) \<and> fst (snd (dll c ! j)) = k"
    then have e: "keys_of (dll c) ! j = keys_of (dll c) ! i" using i by (simp add: keys_of_def)
    have "j < length (keys_of (dll c))" "i < length (keys_of (dll c))"
      using i j by (simp_all add: keys_of_def)
    with d e show "j = i" by (simp add: nth_eq_iff_index_eq)
  qed
qed

subsection \<open>The example of main, continued\<close>

text \<open>
  Claim C2: on a cache of capacity 2, the calls \<^verbatim>\<open>put(1,1); put(2,2); get(1); put(3,3); get(2);
  get(3); get(1)\<close> return 1 from the first \<^verbatim>\<open>get\<close>, then \<open>NOT_FOUND\<close>, 3 and 1. Before
  \<^verbatim>\<open>put(3,3)\<close> the list holds the keys 1, 2 from front to back, so key 2 is the least recently
  used; after it the list holds 3, 1 and the map has no entry for key 2.
\<close>

theorem lru_example_run:
  "map_sum id fst
     (run_cache (LRUCache_new 2) [Put 1 1, Put 2 2, Get 1, Put 3 3, Get 2, Get 3, Get 1])
     = Inr [1, NOT_FOUND, 3, 1] \<and>
   map_sum id (keys_of \<circ> dll \<circ> snd)
     (run_cache (LRUCache_new 2) [Put 1 1, Put 2 2, Get 1]) = Inr [1, 2] \<and>
   map_sum id (keys_of \<circ> dll \<circ> snd)
     (run_cache (LRUCache_new 2) [Put 1 1, Put 2 2, Get 1, Put 3 3]) = Inr [3, 1] \<and>
   map_sum id (\<lambda>r. mp (snd r) 2)
     (run_cache (LRUCache_new 2) [Put 1 1, Put 2 2, Get 1, Put 3 3]) = Inr None"
proof (intro conjI)
  show "map_sum id fst
     (run_cache (LRUCache_new 2) [Put 1 1, Put 2 2, Get 1, Put 3 3, Get 2, Get 3, Get 1])
     = Inr [1, NOT_FOUND, 3, 1]"
    by code_simp
  show "map_sum id (keys_of \<circ> dll \<circ> snd)
     (run_cache (LRUCache_new 2) [Put 1 1, Put 2 2, Get 1]) = Inr [1, 2]"
    by code_simp
  show "map_sum id (keys_of \<circ> dll \<circ> snd)
     (run_cache (LRUCache_new 2) [Put 1 1, Put 2 2, Get 1, Put 3 3]) = Inr [3, 1]"
    by code_simp
  show "map_sum id (\<lambda>r. mp (snd r) 2)
     (run_cache (LRUCache_new 2) [Put 1 1, Put 2 2, Get 1, Put 3 3]) = Inr None"
    by code_simp
qed

subsection \<open>The invariant after every call\<close>

text \<open>
  Claim C4: for a cache constructed with a positive capacity, every sequence of get and put
  calls runs without a fault, and after every call of the sequence (after each of its
  prefixes \<open>take n ops\<close>): every key of the map is the key of exactly one node of the list;
  every node of the list is what the map holds for the node's key, and no two nodes are the
  same; the number of keys of the map is the length of the list, and that is at most the
  capacity.
\<close>

theorem index_and_list_agree:
  assumes "0 < capacity"
  shows "\<exists>vs c. run_cache (LRUCache_new capacity) (take n ops) = Inr (vs, c) \<and>
     (\<forall>k. k \<in> dom (mp c) \<longrightarrow> (\<exists>!i. i < length (dll c) \<and> fst (snd (dll c ! i)) = k)) \<and>
     (\<forall>i. i < length (dll c) \<longrightarrow> mp c (fst (snd (dll c ! i))) = Some (fst (dll c ! i))) \<and>
     distinct (map fst (dll c)) \<and>
     card (dom (mp c)) = length (dll c) \<and> int (length (dll c)) \<le> capacity"
proof -
  from assms have i0: "cache_inv (LRUCache_new capacity)" by (simp add: new_cache_inv)
  from assms have "1 \<le> cap (LRUCache_new capacity)" by (simp add: LRUCache_new_def)
  from run_cache_inv [OF i0 this, of "take n ops"] obtain vs c where
    r: "run_cache (LRUCache_new capacity) (take n ops) = Inr (vs, c)" and
    inv: "cache_inv c" and cp: "cap c = capacity"
    by (auto simp: LRUCache_new_def)
  from inv have ok: "index_ok c" and sz: "int (length (dll c)) \<le> cap c"
    by (simp_all add: cache_inv_def)
  from ok have d: "distinct (map fst (dll c))" by (simp add: index_ok_def)
  from r ok sz cp d show ?thesis
    by (auto simp: key_in_one_entry entry_indexed card_index simp del: dom_eq_empty_conv)
qed

theorem index_and_list_agree_witness:
  "(0::int) < 2 \<and>
   (\<exists>vs c. run_cache (LRUCache_new 2) (take 4 [Put 1 1, Put 2 2, Get 1, Put 3 3, Get 2])
        = Inr (vs, c) \<and>
      keys_of (dll c) = [3, 1] \<and> card (dom (mp c)) = 2 \<and> mp c 3 = Some (fst (dll c ! 0)))"
proof -
  have pos: "(0::int) < 2" by simp
  from index_and_list_agree [OF pos, of 4 "[Put 1 1, Put 2 2, Get 1, Put 3 3, Get 2]"]
  obtain vs c where
    r: "run_cache (LRUCache_new 2) (take 4 [Put 1 1, Put 2 2, Get 1, Put 3 3, Get 2]) = Inr (vs, c)"
    and e: "\<forall>i. i < length (dll c) \<longrightarrow> mp c (fst (snd (dll c ! i))) = Some (fst (dll c ! i))"
    and cd: "card (dom (mp c)) = length (dll c)"
    by blast
  have "map_sum id (keys_of \<circ> dll \<circ> snd)
      (run_cache (LRUCache_new 2) (take 4 [Put 1 1, Put 2 2, Get 1, Put 3 3, Get 2])) = Inr [3, 1]"
    by code_simp
  with r have k: "keys_of (dll c) = [3, 1]" by simp
  then have len: "length (dll c) = 2" by (metis keys_of_def length_map length_Cons list.size(3) numeral_2_eq_2)
  from k len have "fst (snd (dll c ! 0)) = 3"
    by (metis keys_of_def nth_map nth_Cons_0 zero_less_numeral)
  with e len have "mp c 3 = Some (fst (dll c ! 0))" by (metis zero_less_numeral)
  with r k cd len show ?thesis by simp
qed

subsection \<open>A miss\<close>

text \<open>
  Claim C8: in every cache state, for a key that the map does not hold, \<^verbatim>\<open>get(key)\<close> returns
  \<open>NOT_FOUND\<close> (which is -1) and the cache, with its keys, values and recency order, is as
  before; the call returns, it is not a fault.
\<close>

theorem get_of_absent_key:
  assumes "key \<notin> dom (mp c)"
  shows "get c key = Inr (NOT_FOUND, c) \<and> NOT_FOUND = - 1"
  using assms by (simp add: get_miss NOT_FOUND_def domIff)

theorem get_of_absent_key_witness:
  "5 \<notin> dom (mp \<lparr>cap = 2, dll = [(0, (1, 10))], mp = [1 \<mapsto> 0]\<rparr>) \<and>
   get \<lparr>cap = 2, dll = [(0, (1, 10))], mp = [1 \<mapsto> 0]\<rparr> 5
     = Inr (- 1, \<lparr>cap = 2, dll = [(0, (1, 10))], mp = [1 \<mapsto> 0]\<rparr>)"
  using get_of_absent_key [of 5 "\<lparr>cap = 2, dll = [(0, (1, 10))], mp = [1 \<mapsto> 0]\<rparr>"]
  by simp

subsection \<open>The capacity\<close>




end
